theory Spec2Isabelle
  imports Main "HOL-Library.DAList"
begin

section \<open>Time\<close>

text \<open>
  A \<^verbatim>\<open>time.Time\<close> is an instant, counted here in nanoseconds as an unbounded
  integer (Go's range of instants is far wider than 64 bits of nanoseconds). A
  \<^verbatim>\<open>time.Duration\<close> is an \<^verbatim>\<open>int64\<close> of nanoseconds; \<^verbatim>\<open>Time.Sub\<close> saturates at the
  two ends of that range, and that is written out in \<open>Sub\<close>.
\<close>

type_synonym time = int
type_synonym duration = int

definition Second :: duration where
  "Second = 1000000000"

definition Minute :: duration where
  "Minute = 60 * Second"

definition Hour :: duration where
  "Hour = 60 * Minute"

definition minDuration :: duration where
  "minDuration = - (2 ^ 63)"

definition maxDuration :: duration where
  "maxDuration = 2 ^ 63 - 1"

definition After :: "time \<Rightarrow> time \<Rightarrow> bool" where
  \<comment> \<open>\<^verbatim>\<open>t.After(u)\<close>: t is strictly later than u\<close>
  "After t u = (u < t)"

definition Add :: "time \<Rightarrow> duration \<Rightarrow> time" where
  "Add t d = t + d"

definition Sub :: "time \<Rightarrow> time \<Rightarrow> duration" where
  \<comment> \<open>\<^verbatim>\<open>t.Sub(u)\<close>: the difference, clamped to the int64 range of Duration\<close>
  "Sub t u =
     (if t - u < minDuration then minDuration
      else if maxDuration < t - u then maxDuration
      else t - u)"

definition Milliseconds :: "duration \<Rightarrow> int" where
  \<comment> \<open>int64 division by 1e6, truncating toward zero\<close>
  "Milliseconds d = (if d < 0 then - ((- d) div 1000000) else d div 1000000)"


section \<open>The session-token server\<close>

subsection \<open>Sessions and the store\<close>

text \<open>
  \<^verbatim>\<open>Used *bool\<close> is \<open>None\<close> for the nil pointer and \<open>Some b\<close> for a pointer to a
  cell holding \<open>b\<close>. The store's Go map holds \<^verbatim>\<open>*Session\<close> values; every
  pointer put there is the address of a session allocated by one of the two payment
  handlers for that key, so an entry of the model stands for the object the
  entry points to, and a write through the pointer is an update of the entry.
  Keys are unique (a Go map), entries are listed in one fixed order (Go ranges over
  a map in an unspecified order).
\<close>

record Session =
  ID :: string
  CreatedAt :: time
  ExpiresAt :: time
  Type :: string
  Used :: "bool option"

record SessionStore =
  sessions :: "(string, Session) alist"

definition NewSessionStore :: SessionStore where
  "NewSessionStore = \<lparr>sessions = DAList.empty\<rparr>"

definition Set :: "string \<Rightarrow> Session \<Rightarrow> SessionStore \<Rightarrow> SessionStore" where
  "Set sid session s = s\<lparr>sessions := DAList.update sid session (sessions s)\<rparr>"

definition Get :: "SessionStore \<Rightarrow> string \<Rightarrow> Session option" where
  \<comment> \<open>\<open>None\<close> is \<^verbatim>\<open>exists == false\<close>\<close>
  "Get s sid = DAList.lookup (sessions s) sid"

definition isExpired :: "time \<Rightarrow> Session \<Rightarrow> bool" where
  "isExpired now session = After now (ExpiresAt session)"

definition isUsed :: "Session \<Rightarrow> bool" where
  \<comment> \<open>\<^verbatim>\<open>session.Type == "onetime" && session.Used != nil && *session.Used\<close>\<close>
  "isUsed session =
     (Type session = ''onetime'' \<and> (case Used session of None \<Rightarrow> False | Some b \<Rightarrow> b))"

definition GetAllActive :: "time \<Rightarrow> SessionStore \<Rightarrow> Session list" where
  \<comment> \<open>\<open>now\<close> is the \<^verbatim>\<open>time.Now()\<close> read inside the function\<close>
  "GetAllActive now s =
     filter (\<lambda>session. \<not> isExpired now session \<and> \<not> isUsed session)
       (map snd (DAList.impl_of (sessions s)))"


subsection \<open>The handlers\<close>

text \<open>
  Both payment handlers run after the external payment middleware has accepted the
  payment. \<open>sessionID\<close> is the string \<^verbatim>\<open>uuid.New().String()\<close> returned and \<open>now\<close>
  the \<^verbatim>\<open>time.Now()\<close> read by the handler. The timestamps of a response body are
  kept as instants (the RFC 3339 formatting is left out).
\<close>

datatype pay_response =
  PayOK string Session  \<comment> \<open>200: sessionId and the session's fields\<close>

definition pay_session :: "string \<Rightarrow> time \<Rightarrow> SessionStore \<Rightarrow> pay_response \<times> SessionStore" where
  \<comment> \<open>\<^verbatim>\<open>POST /api/pay/session\<close>\<close>
  "pay_session sessionID now s =
     (let expiresAt = Add now (24 * Hour);
          session = \<lparr>ID = sessionID, CreatedAt = now, ExpiresAt = expiresAt,
                     Type = ''24hour'', Used = None\<rparr>
      in (PayOK sessionID session, Set sessionID session s))"

definition pay_onetime :: "string \<Rightarrow> time \<Rightarrow> SessionStore \<Rightarrow> pay_response \<times> SessionStore" where
  \<comment> \<open>\<^verbatim>\<open>POST /api/pay/onetime\<close>\<close>
  "pay_onetime sessionID now s =
     (let expiresAt = Add now (5 * Minute);
          used = False;
          session = \<lparr>ID = sessionID, CreatedAt = now, ExpiresAt = expiresAt,
                     Type = ''onetime'', Used = Some used\<rparr>
      in (PayOK sessionID session, Set sessionID session s))"

datatype session_response =
  SessionNotFound  \<comment> \<open>404, valid false, error "Session not found"\<close>
  | SessionInvalid string Session bool  \<comment> \<open>200, valid false: error, session, used\<close>
  | SessionValid Session int  \<comment> \<open>200, valid true: session, remainingTime\<close>

definition usedValue :: "Session \<Rightarrow> bool" where
  "usedValue session = (case Used session of None \<Rightarrow> False | Some b \<Rightarrow> b)"

definition markUsed :: "string \<Rightarrow> Session \<Rightarrow> SessionStore \<Rightarrow> Session \<times> SessionStore" where
  \<comment> \<open>the block under "Mark one-time sessions as used": the write through
      \<^verbatim>\<open>session.Used\<close> and the \<^verbatim>\<open>Set\<close> after it\<close>
  "markUsed sessionID session s =
     (if Type session = ''onetime'' \<and> Used session \<noteq> None
      then (let session' = session\<lparr>Used := Some True\<rparr>
            in (session', Set sessionID session' s))
      else (session, s))"

definition session_handler ::
  "time \<Rightarrow> string \<Rightarrow> SessionStore \<Rightarrow> session_response \<times> SessionStore" where
  \<comment> \<open>\<^verbatim>\<open>GET /api/session/:sessionId\<close>, run from start to end with no other handler
      in between\<close>
  "session_handler now sessionID s =
     (case Get s sessionID of
        None \<Rightarrow> (SessionNotFound, s)
      | Some session \<Rightarrow>
          if isExpired now session \<or> isUsed session
          then (SessionInvalid
                  (if isUsed session then ''One-time access already used''
                   else ''Session expired'')
                  session (usedValue session), s)
          else (case markUsed sessionID session s of
                  (session', s') \<Rightarrow>
                    (SessionValid session' (Milliseconds (Sub (ExpiresAt session') now)), s')))"

definition sessions_handler :: "time \<Rightarrow> SessionStore \<Rightarrow> Session list \<times> SessionStore" where
  \<comment> \<open>\<^verbatim>\<open>GET /api/sessions\<close>: the listing of \<open>GetAllActive\<close>; the store is not written\<close>
  "sessions_handler now s = (GetAllActive now s, s)"


subsection \<open>Verdicts\<close>

text \<open>
  The four verdicts of the specification, read off the response of the validation
  endpoint: 404 is not found, a valid response is valid, and an invalid response
  is told apart by its error message.
\<close>

datatype verdict = VALID | NOT_FOUND | EXPIRED | ALREADY_USED

fun verdict_of :: "session_response \<Rightarrow> verdict" where
  "verdict_of SessionNotFound = NOT_FOUND"
| "verdict_of (SessionInvalid e session u) =
     (if e = ''One-time access already used'' then ALREADY_USED else EXPIRED)"
| "verdict_of (SessionValid session r) = VALID"

definition Redeem :: "string \<Rightarrow> time \<Rightarrow> SessionStore \<Rightarrow> verdict \<times> SessionStore" where
  "Redeem key now s = (case session_handler now key s of (r, s') \<Rightarrow> (verdict_of r, s'))"


section \<open>The validation handler, step by step\<close>

text \<open>
  The server runs every request in a goroutine of its own. \<^verbatim>\<open>Get\<close> holds the
  store's read lock and \<^verbatim>\<open>Set\<close> its write lock, each only for its own body; the
  handler holds no lock between them, and reads and writes \<^verbatim>\<open>*session.Used\<close>
  with no lock at all. The handler is cut here into two steps, each a run of
  consecutive statements: the first goes from \<^verbatim>\<open>Get\<close> to the test
  \<^verbatim>\<open>isExpired || isUsed\<close> (and to the response when the test or the lookup fails),
  the second is the marking block and the valid response. A schedule names which
  handler takes its next step; every schedule is an execution of the program.
  A handler between its two steps holds the pointer it got; the model keeps the
  session it read: the second step reads \<^verbatim>\<open>Type\<close>, \<^verbatim>\<open>ExpiresAt\<close> and whether
  \<^verbatim>\<open>Used\<close> is nil, none of which is ever written.
\<close>

datatype handler_state =
  Fetch  \<comment> \<open>before \<^verbatim>\<open>sessionStore.Get\<close>\<close>
  | Mark Session  \<comment> \<open>past the validity test, before the marking block\<close>
  | Finished session_response

fun handler_step ::
  "time \<Rightarrow> string \<Rightarrow> handler_state \<Rightarrow> SessionStore \<Rightarrow> handler_state \<times> SessionStore" where
  "handler_step now sessionID Fetch s =
     (case Get s sessionID of
        None \<Rightarrow> (Finished SessionNotFound, s)
      | Some session \<Rightarrow>
          if isExpired now session \<or> isUsed session
          then (Finished (SessionInvalid
                  (if isUsed session then ''One-time access already used''
                   else ''Session expired'')
                  session (usedValue session)), s)
          else (Mark session, s))"
| "handler_step now sessionID (Mark session) s =
     (case markUsed sessionID session s of
        (session', s') \<Rightarrow>
          (Finished (SessionValid session' (Milliseconds (Sub (ExpiresAt session') now))), s'))"
| "handler_step now sessionID (Finished r) s = (Finished r, s)"

fun run_schedule ::
  "time \<Rightarrow> string \<Rightarrow> nat list \<Rightarrow> handler_state list \<Rightarrow> SessionStore
     \<Rightarrow> handler_state list \<times> SessionStore" where
  "run_schedule now sessionID [] hs s = (hs, s)"
| "run_schedule now sessionID (i # sched) hs s =
     (if i < length hs
      then (case handler_step now sessionID (hs ! i) s of
              (h', s') \<Rightarrow> run_schedule now sessionID sched (hs[i := h']) s')
      else run_schedule now sessionID sched hs s)"

fun outcome :: "handler_state \<Rightarrow> verdict option" where
  "outcome (Finished r) = Some (verdict_of r)"
| "outcome h = None"


section \<open>Sequences of requests to the session-token server\<close>

datatype request =
  PaySession string time  \<comment> \<open>\<^verbatim>\<open>POST /api/pay/session\<close>, with the uuid drawn\<close>
  | PayOnetime string time  \<comment> \<open>\<^verbatim>\<open>POST /api/pay/onetime\<close>, with the uuid drawn\<close>
  | Validate string time  \<comment> \<open>\<^verbatim>\<open>GET /api/session/:sessionId\<close>\<close>
  | ListSessions time  \<comment> \<open>\<^verbatim>\<open>GET /api/sessions\<close>\<close>
  | Lookup string  \<comment> \<open>a bare \<^verbatim>\<open>sessionStore.Get\<close>\<close>

fun serve :: "request \<Rightarrow> SessionStore \<Rightarrow> SessionStore" where
  "serve (PaySession k t) s = snd (pay_session k t s)"
| "serve (PayOnetime k t) s = snd (pay_onetime k t s)"
| "serve (Validate k t) s = snd (session_handler t k s)"
| "serve (ListSessions t) s = snd (sessions_handler t s)"
| "serve (Lookup k) s = s"

fun serve_all :: "request list \<Rightarrow> SessionStore \<Rightarrow> SessionStore" where
  "serve_all [] s = s"
| "serve_all (r # rs) s = serve_all rs (serve r s)"

fun fresh_key :: "request \<Rightarrow> SessionStore \<Rightarrow> bool" where
  \<comment> \<open>the uuid a payment handler draws is not a key of the store\<close>
  "fresh_key (PaySession k t) s = (Get s k = None)"
| "fresh_key (PayOnetime k t) s = (Get s k = None)"
| "fresh_key r s = True"

fun fresh_keys :: "request list \<Rightarrow> SessionStore \<Rightarrow> bool" where
  "fresh_keys [] s = True"
| "fresh_keys (r # rs) s = (fresh_key r s \<and> fresh_keys rs (serve r s))"

definition used_flag :: "SessionStore \<Rightarrow> string \<Rightarrow> bool option" where
  \<comment> \<open>the cell behind \<^verbatim>\<open>Used\<close> of the session stored under a key\<close>
  "used_flag s k = (case Get s k of None \<Rightarrow> None | Some session \<Rightarrow> Used session)"

definition sets_used :: "request list \<Rightarrow> SessionStore \<Rightarrow> string \<Rightarrow> nat \<Rightarrow> bool" where
  \<comment> \<open>request number \<open>i\<close> of the sequence turns the flag under \<open>k\<close> from false to true\<close>
  "sets_used rs s k i =
     (used_flag (serve_all (take i rs) s) k = Some False \<and>
      used_flag (serve_all (take (Suc i) rs) s) k = Some True)"

fun redeem_all :: "string \<Rightarrow> time list \<Rightarrow> SessionStore \<Rightarrow> verdict list \<times> SessionStore" where
  "redeem_all key [] s = ([], s)"
| "redeem_all key (now # nows) s =
     (case Redeem key now s of
        (v, s') \<Rightarrow> (case redeem_all key nows s' of (vs, s'') \<Rightarrow> (v # vs, s'')))"

definition spec_valid :: "time \<Rightarrow> Session \<Rightarrow> bool" where
  \<comment> \<open>validity as the specification words it: \<open>T < expiresAt\<close> and not
      (single use and used)\<close>
  "spec_valid T g = (T < ExpiresAt g \<and> \<not> (Type g = ''onetime'' \<and> Used g = Some True))"


section \<open>The wallet-address server\<close>

text \<open>
  \<^verbatim>\<open>paidUsers\<close> is a Go map from the wallet address to a \<^verbatim>\<open>UserAccess\<close> value.
  \<open>ToLower\<close> is \<^verbatim>\<open>strings.ToLower\<close> on a string of ASCII bytes, where it moves
  \<^verbatim>\<open>'A'..'Z'\<close> to \<^verbatim>\<open>'a'..'z'\<close> and keeps every other byte; on a string with a byte
  from 0x80 on, Go maps runes by its Unicode tables, which is not modelled, so the
  statements about the stored key take an ASCII header (wallet addresses are
  hexadecimal). A header that is absent reads as the empty string
  (\<^verbatim>\<open>c.GetHeader\<close>).
\<close>

record UserAccess =
  StartTime :: time

type_synonym paidUsers = "string \<rightharpoonup> UserAccess"

definition ViewDuration :: duration where
  "ViewDuration = 30 * Second"

definition isASCII :: "string \<Rightarrow> bool" where
  "isASCII str = list_all (\<lambda>c. (of_char c :: nat) < 128) str"

definition lowerByte :: "char \<Rightarrow> char" where
  "lowerByte c =
     (if (65::nat) \<le> of_char c \<and> (of_char c :: nat) \<le> 90
      then char_of (of_char c + (32::nat)) else c)"

definition ToLower :: "string \<Rightarrow> string" where
  "ToLower str = map lowerByte str"

datatype pay_image_response =
  PayBadRequest  \<comment> \<open>400, the header is required\<close>
  | PayImageOK  \<comment> \<open>200, success\<close>

definition pay_image :: "time \<Rightarrow> string \<Rightarrow> paidUsers \<Rightarrow> pay_image_response \<times> paidUsers" where
  \<comment> \<open>\<^verbatim>\<open>POST /api/pay/image\<close>, after the external payment middleware has accepted
      the payment; \<open>walletAddress\<close> is the value of the header\<close>
  "pay_image now walletAddress paid =
     (if walletAddress = [] then (PayBadRequest, paid)
      else (let normalizedAddress = ToLower walletAddress
            in (PayImageOK, paid(normalizedAddress \<mapsto> \<lparr>StartTime = now\<rparr>))))"

datatype image_response =
  PaymentRequired402  \<comment> \<open>the middleware's challenge\<close>
  | NotPaid403  \<comment> \<open>403, paid false\<close>
  | Expired403  \<comment> \<open>403, paid false, expired true\<close>
  | ImageOK time  \<comment> \<open>200, paid true, with startTime\<close>

definition paymentMiddleware :: "string \<Rightarrow> string option" where
  \<comment> \<open>\<open>None\<close>: aborted with 402; \<open>Some a\<close>: the context value "walletAddress"
      set before the handler runs\<close>
  "paymentMiddleware walletAddress =
     (if walletAddress = [] then None else Some (ToLower walletAddress))"

definition image_handler :: "time \<Rightarrow> string \<Rightarrow> paidUsers \<Rightarrow> image_response \<times> paidUsers" where
  \<comment> \<open>the handler of \<^verbatim>\<open>GET /api/image\<close>; it reads the header again and not the
      context value\<close>
  "image_handler now walletAddress paid =
     (if walletAddress = [] then (NotPaid403, paid)
      else (case paid walletAddress of
              None \<Rightarrow> (NotPaid403, paid)
            | Some userAccess \<Rightarrow>
                (let elapsed = Sub now (StartTime userAccess)
                 in if ViewDuration \<le> elapsed
                    then (Expired403, paid(walletAddress := None))
                    else (ImageOK (StartTime userAccess), paid))))"

definition get_image :: "time \<Rightarrow> string \<Rightarrow> paidUsers \<Rightarrow> image_response \<times> paidUsers" where
  \<comment> \<open>the route \<^verbatim>\<open>GET /api/image\<close>: the middleware, then the handler\<close>
  "get_image now walletAddress paid =
     (case paymentMiddleware walletAddress of
        None \<Rightarrow> (PaymentRequired402, paid)
      | Some ctxAddress \<Rightarrow> image_handler now walletAddress paid)"

inductive reachable :: "paidUsers \<Rightarrow> bool" where
  start: "reachable Map.empty"
| pay: "reachable paid \<Longrightarrow> isASCII w \<Longrightarrow> reachable (snd (pay_image now w paid))"
| access: "reachable paid \<Longrightarrow> reachable (snd (get_image now w paid))"


section \<open>Basic facts\<close>

lemma Get_Set: "Get (Set k v s) k' = (if k = k' then Some v else Get s k')"
  by (simp add: Get_def Set_def DAList.lookup_update)

lemma Get_pay_onetime:
  "Get (snd (pay_onetime k t s)) k =
     Some \<lparr>ID = k, CreatedAt = t, ExpiresAt = t + 5 * Minute, Type = ''onetime'', Used = Some False\<rparr>"
  by (simp add: pay_onetime_def Get_Set Add_def Let_def)

lemma Redeem_not_found: "Get s k = None \<Longrightarrow> Redeem k now s = (NOT_FOUND, s)"
  by (simp add: Redeem_def session_handler_def)

lemma Redeem_used:
  "Get s k = Some g \<Longrightarrow> isUsed g \<Longrightarrow> Redeem k now s = (ALREADY_USED, s)"
  by (simp add: Redeem_def session_handler_def)

lemma Redeem_expired:
  "Get s k = Some g \<Longrightarrow> \<not> isUsed g \<Longrightarrow> isExpired now g \<Longrightarrow> Redeem k now s = (EXPIRED, s)"
  by (simp add: Redeem_def session_handler_def)

lemma Redeem_valid:
  "Get s k = Some g \<Longrightarrow> \<not> isUsed g \<Longrightarrow> \<not> isExpired now g \<Longrightarrow>
     Redeem k now s = (VALID, snd (markUsed k g s))"
  by (simp add: Redeem_def session_handler_def split: prod.splits)

lemma markUsed_onetime:
  "Type g = ''onetime'' \<Longrightarrow> Used g = Some b \<Longrightarrow>
     snd (markUsed k g s) = Set k (g\<lparr>Used := Some True\<rparr>) s"
  by (simp add: markUsed_def Let_def)

lemma markUsed_other: "Type g \<noteq> ''onetime'' \<Longrightarrow> snd (markUsed k g s) = s"
  by (simp add: markUsed_def)

lemma five_minutes: "5 * Minute = 300000000000"
  by (simp add: Minute_def Second_def)


section \<open>Single use, one request after the other\<close>

text \<open>
  Claim C4. After the one-time payment handler has stored a session under a key, a first
  validation request for that key at a time before the session's expiry is answered
  as valid, and a second validation request at the same time is answered as already
  used.
\<close>

theorem C4_single_use_then_already_used:
  assumes "now < Add t (5 * Minute)"
  shows "fst (Redeem key now (snd (pay_onetime key t s))) = VALID \<and>
         fst (Redeem key now (snd (Redeem key now (snd (pay_onetime key t s))))) = ALREADY_USED"
proof -
  let ?g = "\<lparr>ID = key, CreatedAt = t, ExpiresAt = t + 5 * Minute, Type = ''onetime'',
              Used = Some False\<rparr>"
  let ?s1 = "snd (pay_onetime key t s)"
  have g: "Get ?s1 key = Some ?g"
    by (rule Get_pay_onetime)
  have fresh: "\<not> isUsed ?g"
    by (simp add: isUsed_def)
  have live: "\<not> isExpired now ?g"
    using assms by (simp add: isExpired_def After_def Add_def)
  have first: "Redeem key now ?s1 = (VALID, Set key (?g\<lparr>Used := Some True\<rparr>) ?s1)"
    using Redeem_valid [OF g fresh live] markUsed_onetime [of ?g False key ?s1] by simp
  have g2: "Get (Set key (?g\<lparr>Used := Some True\<rparr>) ?s1) key = Some (?g\<lparr>Used := Some True\<rparr>)"
    by (simp add: Get_Set)
  have second: "fst (Redeem key now (Set key (?g\<lparr>Used := Some True\<rparr>) ?s1)) = ALREADY_USED"
    using Redeem_used [OF g2] by (simp add: isUsed_def)
  show ?thesis
    using first second by simp
qed

theorem C4_witness:
  "(1::int) < Add 0 (5 * Minute) \<and>
   fst (Redeem ''A'' 1 (snd (pay_onetime ''A'' 0 NewSessionStore))) = VALID \<and>
   fst (Redeem ''A'' 1 (snd (Redeem ''A'' 1 (snd (pay_onetime ''A'' 0 NewSessionStore))))) =
     ALREADY_USED"
proof -
  have h: "(1::int) < Add 0 (5 * Minute)"
    by (simp add: Add_def five_minutes)
  show ?thesis
    using h C4_single_use_then_already_used [OF h, of "''A''" NewSessionStore] by simp
qed

lemma Sub_reaches: "(ViewDuration \<le> Sub now t0) = (Add t0 ViewDuration \<le> now)"
  unfolding Sub_def ViewDuration_def Second_def Add_def minDuration_def maxDuration_def
  by auto


section \<open>Expiry\<close>

text \<open>
  Claim C2, as stated: for a grant stored with expiry \<open>E\<close>, a redemption at a time
  before \<open>E\<close> is never answered as expired, and a redemption at \<open>E\<close> or later is never
  answered as valid. The validation handler of the session-token server tests
  \<^verbatim>\<open>now.After(session.ExpiresAt)\<close>, so at the instant \<open>E\<close> itself an unused
  session is still valid: the statement fails there.
\<close>

theorem C2_counterexample:
  "Get (snd (pay_onetime ''k'' 0 NewSessionStore)) ''k'' =
     Some \<lparr>ID = ''k'', CreatedAt = 0, ExpiresAt = 300000000000, Type = ''onetime'',
            Used = Some False\<rparr> \<and>
   fst (Redeem ''k'' 300000000000 (snd (pay_onetime ''k'' 0 NewSessionStore))) = VALID"
  by (simp add: Get_pay_onetime five_minutes Redeem_def session_handler_def isExpired_def
      isUsed_def After_def markUsed_def Let_def split: prod.splits)

text \<open>
  Claim C2, amended. In the session-token server a redemption at a time up to and
  including \<open>E\<close> is never answered as expired and a redemption after \<open>E\<close> is never
  answered as valid. In the wallet-address server, where \<open>E\<close> is the start time plus
  the view duration, an access before \<open>E\<close> is never answered as expired and an access
  at \<open>E\<close> or later is never answered with the image.
\<close>

theorem C2_expiry_bounds:
  "(Get s key = Some g \<longrightarrow>
      (now \<le> ExpiresAt g \<longrightarrow> fst (Redeem key now s) \<noteq> EXPIRED) \<and>
      (ExpiresAt g < now \<longrightarrow> fst (Redeem key now s) \<noteq> VALID)) \<and>
   (paid w = Some ua \<longrightarrow>
      (now < Add (StartTime ua) ViewDuration \<longrightarrow> fst (get_image now w paid) \<noteq> Expired403) \<and>
      (Add (StartTime ua) ViewDuration \<le> now \<longrightarrow> fst (get_image now w paid) \<noteq> ImageOK t))"
proof -
  have token: "(now \<le> ExpiresAt g \<longrightarrow> fst (Redeem key now s) \<noteq> EXPIRED) \<and>
      (ExpiresAt g < now \<longrightarrow> fst (Redeem key now s) \<noteq> VALID)" if g: "Get s key = Some g"
  proof (cases "isUsed g")
    case True
    then show ?thesis using Redeem_used [OF g] by simp
  next
    case False
    show ?thesis
    proof (cases "isExpired now g")
      case True
      then show ?thesis
        using Redeem_expired [OF g False] by (simp add: isExpired_def After_def)
    next
      case False
      then show ?thesis
        using Redeem_valid [OF g \<open>\<not> isUsed g\<close>] by (simp add: isExpired_def After_def)
    qed
  qed
  have wallet: "(now < Add (StartTime ua) ViewDuration \<longrightarrow> fst (get_image now w paid) \<noteq> Expired403) \<and>
      (Add (StartTime ua) ViewDuration \<le> now \<longrightarrow> fst (get_image now w paid) \<noteq> ImageOK t)"
    if ua: "paid w = Some ua"
    using ua by (simp add: get_image_def paymentMiddleware_def image_handler_def Let_def Sub_reaches)
  show ?thesis
    using token wallet by blast
qed

theorem C2_witness:
  "fst (Redeem ''k'' 300000000000 (snd (pay_onetime ''k'' 0 NewSessionStore))) \<noteq> EXPIRED \<and>
   fst (Redeem ''k'' 300000000001 (snd (pay_onetime ''k'' 0 NewSessionStore))) \<noteq> VALID \<and>
   fst (get_image 29999999999 ''0xab'' [''0xab'' \<mapsto> \<lparr>StartTime = 0\<rparr>]) \<noteq> Expired403 \<and>
   fst (get_image 30000000000 ''0xab'' [''0xab'' \<mapsto> \<lparr>StartTime = 0\<rparr>]) \<noteq> ImageOK 0"
proof -
  let ?s = "snd (pay_onetime ''k'' 0 NewSessionStore)"
  let ?g = "\<lparr>ID = ''k'', CreatedAt = 0, ExpiresAt = 0 + 5 * Minute, Type = ''onetime'',
              Used = Some False\<rparr>"
  let ?p = "[''0xab'' \<mapsto> \<lparr>StartTime = 0\<rparr>]"
  have g: "Get ?s ''k'' = Some ?g"
    by (rule Get_pay_onetime)
  have p: "?p ''0xab'' = Some \<lparr>StartTime = 0\<rparr>"
    by simp
  have a: "fst (Redeem ''k'' 300000000000 ?s) \<noteq> EXPIRED"
    using C2_expiry_bounds [of ?s "''k''" ?g 300000000000 ?p "''0xab''" "\<lparr>StartTime = 0\<rparr>" 0] g
    by (simp add: five_minutes)
  have b: "fst (Redeem ''k'' 300000000001 ?s) \<noteq> VALID"
    using C2_expiry_bounds [of ?s "''k''" ?g 300000000001 ?p "''0xab''" "\<lparr>StartTime = 0\<rparr>" 0] g
    by (simp add: five_minutes)
  have c: "fst (get_image 29999999999 ''0xab'' ?p) \<noteq> Expired403"
    using C2_expiry_bounds [of ?s "''k''" ?g 29999999999 ?p "''0xab''" "\<lparr>StartTime = 0\<rparr>" 0] p
    by (simp add: Add_def ViewDuration_def Second_def)
  have d: "fst (get_image 30000000000 ''0xab'' ?p) \<noteq> ImageOK 0"
    using C2_expiry_bounds [of ?s "''k''" ?g 30000000000 ?p "''0xab''" "\<lparr>StartTime = 0\<rparr>" 0] p
    by (simp add: Add_def ViewDuration_def Second_def)
  show ?thesis
    using a b c d by simp
qed

section \<open>Expired sessions\<close>

text \<open>
  Claim C3, as stated: for a grant in the store whose expiry has passed
  (\<open>now \<ge> expiresAt\<close>), redemption answers expired, also when the grant is a
  single-use grant already used. The validation handler sets the error message of an
  invalid session to the one for a used session whenever \<^verbatim>\<open>isUsed\<close> holds, so a used
  one-time session past its expiry is answered as already used; and at the instant
  of expiry itself an unused session is still valid.
\<close>

theorem C3_counterexample:
  "Get (snd (Redeem ''C'' 1 (snd (pay_onetime ''C'' 0 NewSessionStore)))) ''C'' =
     Some \<lparr>ID = ''C'', CreatedAt = 0, ExpiresAt = 300000000000, Type = ''onetime'',
            Used = Some True\<rparr> \<and>
   fst (Redeem ''C'' 300000000001
          (snd (Redeem ''C'' 1 (snd (pay_onetime ''C'' 0 NewSessionStore))))) = ALREADY_USED \<and>
   fst (Redeem ''C'' 300000000000 (snd (pay_onetime ''C'' 0 NewSessionStore))) = VALID"
  by (simp add: Get_pay_onetime Get_Set five_minutes Redeem_def session_handler_def isExpired_def
      isUsed_def After_def markUsed_def Let_def split: prod.splits)

text \<open>
  Claim C3, amended. For a session in the store and a time after its expiry,
  redemption answers expired, unless the session is a one-time session whose used
  flag is set, which is answered as already used; the store is left as it was.
\<close>

theorem C3_expired_unless_used:
  assumes "Get s key = Some g" and "ExpiresAt g < now"
  shows "Redeem key now s = (if isUsed g then ALREADY_USED else EXPIRED, s)"
proof (cases "isUsed g")
  case True
  then show ?thesis
    using Redeem_used [OF assms(1)] by simp
next
  case False
  have "isExpired now g"
    using assms(2) by (simp add: isExpired_def After_def)
  then show ?thesis
    using Redeem_expired [OF assms(1) False] False by simp
qed

theorem C3_witness:
  "Redeem ''C'' 31000000000
     (Set ''C'' \<lparr>ID = ''C'', CreatedAt = 0, ExpiresAt = 30000000000, Type = ''onetime'',
                  Used = Some False\<rparr> NewSessionStore) =
   (EXPIRED, Set ''C'' \<lparr>ID = ''C'', CreatedAt = 0, ExpiresAt = 30000000000, Type = ''onetime'',
                  Used = Some False\<rparr> NewSessionStore)"
proof -
  let ?g = "\<lparr>ID = ''C'', CreatedAt = 0, ExpiresAt = 30000000000, Type = ''onetime'',
              Used = Some False\<rparr>"
  have g: "Get (Set ''C'' ?g NewSessionStore) ''C'' = Some ?g"
    by (simp add: Get_Set)
  have e: "ExpiresAt ?g < 31000000000"
    by simp
  show ?thesis
    using C3_expired_unless_used [OF g e] by (simp add: isUsed_def)
qed


section \<open>The listing of active sessions\<close>

text \<open>
  Claim C7, as stated: the listing at \<open>now\<close> holds only grants valid at \<open>now\<close>, where
  valid asks for \<open>now < expiresAt\<close>. \<^verbatim>\<open>GetAllActive\<close> drops a session only when
  \<^verbatim>\<open>now.After(session.ExpiresAt)\<close>, so a session is still listed at the instant of
  its expiry.
\<close>

theorem C7_counterexample:
  "GetAllActive 300000000000 (snd (pay_onetime ''k'' 0 NewSessionStore)) =
     [\<lparr>ID = ''k'', CreatedAt = 0, ExpiresAt = 300000000000, Type = ''onetime'',
        Used = Some False\<rparr>] \<and>
   \<not> spec_valid 300000000000
        \<lparr>ID = ''k'', CreatedAt = 0, ExpiresAt = 300000000000, Type = ''onetime'',
           Used = Some False\<rparr>"
  by (simp add: GetAllActive_def pay_onetime_def Let_def Set_def NewSessionStore_def
      DAList.update.rep_eq DAList.empty.rep_eq isExpired_def isUsed_def After_def Add_def
      five_minutes spec_valid_def)

text \<open>
  Claim C7, amended. Every session in the listing at \<open>now\<close> is a session of the store
  with \<open>now \<le> expiresAt\<close> that is not a used one-time session; the listing leaves the
  store as it was.
\<close>

theorem C7_active_listing:
  assumes "g \<in> set (GetAllActive now s)"
  shows "now \<le> ExpiresAt g \<and> \<not> (Type g = ''onetime'' \<and> Used g = Some True) \<and>
         (\<exists>k. Get s k = Some g) \<and> snd (sessions_handler now s) = s"
proof -
  have in_store: "g \<in> snd ` set (DAList.impl_of (sessions s))"
    and live: "\<not> isExpired now g" and unused: "\<not> isUsed g"
    using assms by (auto simp: GetAllActive_def)
  from in_store obtain k where "(k, g) \<in> set (DAList.impl_of (sessions s))"
    by auto
  then have "Get s k = Some g"
    by (simp add: Get_def DAList.lookup.rep_eq)
  moreover have "now \<le> ExpiresAt g"
    using live by (simp add: isExpired_def After_def)
  moreover have "\<not> (Type g = ''onetime'' \<and> Used g = Some True)"
    using unused by (auto simp: isUsed_def)
  ultimately show ?thesis
    by (auto simp: sessions_handler_def)
qed

theorem C7_witness:
  "\<lparr>ID = ''k'', CreatedAt = 0, ExpiresAt = 300000000000, Type = ''onetime'', Used = Some False\<rparr>
     \<in> set (GetAllActive 5 (snd (pay_onetime ''k'' 0 NewSessionStore))) \<and>
   (5::int) \<le> 300000000000"
proof -
  let ?g = "\<lparr>ID = ''k'', CreatedAt = 0, ExpiresAt = 300000000000, Type = ''onetime'',
              Used = Some False\<rparr>"
  have h: "?g \<in> set (GetAllActive 5 (snd (pay_onetime ''k'' 0 NewSessionStore)))"
    by (simp add: GetAllActive_def pay_onetime_def Let_def Set_def NewSessionStore_def
      DAList.update.rep_eq DAList.empty.rep_eq isExpired_def isUsed_def After_def Add_def
      five_minutes)
  show ?thesis
    using h C7_active_listing [OF h] by simp
qed

lemma Redeem_recurring:
  assumes "Get s key = Some g" and "Type g = ''24hour''" and "now \<le> ExpiresAt g"
  shows "Redeem key now s = (VALID, s)"
proof -
  have u: "\<not> isUsed g"
    using assms(2) by (simp add: isUsed_def)
  have e: "\<not> isExpired now g"
    using assms(3) by (simp add: isExpired_def After_def)
  have "snd (markUsed key g s) = s"
    using assms(2) by (simp add: markUsed_other)
  then show ?thesis
    using Redeem_valid [OF assms(1) u e] by simp
qed

lemma one_hour: "Hour = 3600000000000"
  by (simp add: Hour_def Minute_def Second_def)

lemma Get_pay_session:
  "Get (snd (pay_session k t s)) k =
     Some \<lparr>ID = k, CreatedAt = t, ExpiresAt = t + 24 * Hour, Type = ''24hour'', Used = None\<rparr>"
  by (simp add: pay_session_def Get_Set Add_def Let_def)


section \<open>Recurring sessions\<close>

text \<open>
  Claim C5. A 24-hour session redeemed any number of times, each time before its
  expiry, is answered as valid every time, and the store after the redemptions is the
  store before them: the session's record is not written, and it is never marked
  used.
\<close>

theorem C5_recurring_reusable:
  assumes "Get s key = Some g" and "Type g = ''24hour''"
    and "\<forall>now \<in> set nows. now < ExpiresAt g"
  shows "redeem_all key nows s = (replicate (length nows) VALID, s)"
  using assms(3)
proof (induction nows)
  case Nil
  show ?case by simp
next
  case (Cons now nows)
  have "Redeem key now s = (VALID, s)"
    using Redeem_recurring [OF assms(1) assms(2), of now] Cons.prems by simp
  moreover have "redeem_all key nows s = (replicate (length nows) VALID, s)"
    using Cons by simp
  ultimately show ?case
    by simp
qed

theorem C5_witness:
  "redeem_all ''B'' [0, 3600000000000] (snd (pay_session ''B'' 0 NewSessionStore)) =
     ([VALID, VALID], snd (pay_session ''B'' 0 NewSessionStore)) \<and>
   Get (snd (pay_session ''B'' 0 NewSessionStore)) ''B'' =
     Some \<lparr>ID = ''B'', CreatedAt = 0, ExpiresAt = 86400000000000, Type = ''24hour'',
            Used = None\<rparr>"
proof -
  let ?g = "\<lparr>ID = ''B'', CreatedAt = 0, ExpiresAt = 0 + 24 * Hour, Type = ''24hour'',
              Used = None\<rparr>"
  have g: "Get (snd (pay_session ''B'' 0 NewSessionStore)) ''B'' = Some ?g"
    by (rule Get_pay_session)
  have t: "Type ?g = ''24hour''"
    by simp
  have b: "\<forall>now \<in> set [0, 3600000000000]. now < ExpiresAt ?g"
    by (simp add: one_hour)
  show ?thesis
    using C5_recurring_reusable [OF g t b] g by (simp add: one_hour)
qed


section \<open>Single use under concurrent requests\<close>

text \<open>
  Run one after the other, any number of validation requests for a fresh one-time
  session see one valid answer and then only already-used answers.
\<close>

lemma sequential_exclusive:
  assumes "Get s key = Some g" and "Type g = ''onetime''" and "Used g = Some False"
    and "now \<le> ExpiresAt g"
  shows "fst (redeem_all key (replicate (Suc n) now) s) = VALID # replicate n ALREADY_USED"
proof -
  let ?g' = "g\<lparr>Used := Some True\<rparr>"
  let ?s' = "Set key ?g' s"
  have u: "\<not> isUsed g"
    using assms(3) by (simp add: isUsed_def)
  have e: "\<not> isExpired now g"
    using assms(4) by (simp add: isExpired_def After_def)
  have first: "Redeem key now s = (VALID, ?s')"
    using Redeem_valid [OF assms(1) u e] markUsed_onetime [OF assms(2) assms(3)] by simp
  have g': "Get ?s' key = Some ?g'"
    by (simp add: Get_Set)
  have u': "isUsed ?g'"
    using assms(2) by (simp add: isUsed_def)
  have rest: "redeem_all key (replicate m now) ?s' = (replicate m ALREADY_USED, ?s')" for m
    by (induction m) (simp_all add: Redeem_used [OF g' u'])
  show ?thesis
    using first rest [of n] by simp
qed

text \<open>One handler taking its two steps in a row is the handler run as a whole.\<close>

lemma handler_in_two_steps:
  "run_schedule now k [0, 0] [Fetch] s =
     ([Finished (fst (session_handler now k s))], snd (session_handler now k s))"
  by (simp add: session_handler_def split: option.splits prod.splits)

text \<open>
  Claim C1 says that of any number of concurrent redemptions of an unexpired
  single-use grant exactly one is answered as valid, under every interleaving. The
  handler tests \<^verbatim>\<open>*session.Used\<close> and sets it in two places with no lock held across
  them. Two requests for the one-time session \<open>D\<close>, created at time 0, both at time 1:
  when both handlers have passed the test before either marks the session, both
  answer valid.
\<close>

theorem C1_two_valid:
  "map outcome
     (fst (run_schedule 1 ''D'' [0, 1, 0, 1] [Fetch, Fetch]
             (snd (pay_onetime ''D'' 0 NewSessionStore)))) =
   [Some VALID, Some VALID]"
  by (simp add: Get_pay_onetime isExpired_def isUsed_def After_def five_minutes markUsed_def
      Let_def)

section \<open>The used flag\<close>

lemma session_handler_store:
  "snd (session_handler now k s) = s \<or>
   (\<exists>g. Get s k = Some g \<and> Type g = ''onetime'' \<and> Used g = Some False \<and>
        fst (Redeem k now s) = VALID \<and>
        snd (session_handler now k s) = Set k (g\<lparr>Used := Some True\<rparr>) s)"
proof (cases "Get s k")
  case None
  then show ?thesis by (simp add: session_handler_def)
next
  case (Some g)
  show ?thesis
  proof (cases "isExpired now g \<or> isUsed g")
    case True
    then show ?thesis using Some by (simp add: session_handler_def)
  next
    case False
    then have v: "Redeem k now s = (VALID, snd (markUsed k g s))"
      using Redeem_valid [OF Some] by simp
    have h: "snd (session_handler now k s) = snd (markUsed k g s)"
      using Some False by (simp add: session_handler_def split: prod.splits)
    show ?thesis
    proof (cases "Type g = ''onetime'' \<and> Used g \<noteq> None")
      case True
      then have "Used g = Some False"
        using False by (auto simp: isUsed_def)
      then show ?thesis
        using True Some v h markUsed_onetime [of g False k s] by simp
    next
      case False
      then have "snd (markUsed k g s) = s"
        by (auto simp: markUsed_def)
      then show ?thesis using h by simp
    qed
  qed
qed

lemma used_flag_Set: "used_flag (Set k' g s) k = (if k' = k then Used g else used_flag s k)"
  by (simp add: used_flag_def Get_Set)

lemma used_flag_None: "Get s k = None \<Longrightarrow> used_flag s k = None"
  by (simp add: used_flag_def)

lemma serve_keeps_used:
  assumes "fresh_key r s" and "used_flag s k = Some True"
  shows "used_flag (serve r s) k = Some True"
proof (cases r)
  case (PaySession k' t)
  then have "k' \<noteq> k"
    using assms by (auto simp: used_flag_def)
  then show ?thesis
    using PaySession assms(2) by (simp add: pay_session_def Let_def used_flag_Set)
next
  case (PayOnetime k' t)
  then have "k' \<noteq> k"
    using assms by (auto simp: used_flag_def)
  then show ?thesis
    using PayOnetime assms(2) by (simp add: pay_onetime_def Let_def used_flag_Set)
next
  case (Validate k' t)
  then show ?thesis
    using session_handler_store [of t k' s] assms(2) by (auto simp: used_flag_Set)
next
  case (ListSessions t)
  then show ?thesis using assms(2) by (simp add: sessions_handler_def)
next
  case (Lookup k')
  then show ?thesis using assms(2) by simp
qed

lemma serve_sets_used:
  assumes "used_flag s k = Some False" and "used_flag (serve r s) k = Some True"
  shows "\<exists>now g. r = Validate k now \<and> Get s k = Some g \<and> Type g = ''onetime'' \<and>
           fst (Redeem k now s) = VALID"
proof (cases r)
  case (PaySession k' t)
  then show ?thesis
    using assms by (auto simp: pay_session_def Let_def used_flag_Set split: if_splits)
next
  case (PayOnetime k' t)
  then show ?thesis
    using assms by (auto simp: pay_onetime_def Let_def used_flag_Set split: if_splits)
next
  case (Validate k' t)
  then show ?thesis
    using session_handler_store [of t k' s] assms by (auto simp: used_flag_Set split: if_splits)
next
  case (ListSessions t)
  then show ?thesis using assms by (simp add: sessions_handler_def)
next
  case (Lookup k')
  then show ?thesis using assms by simp
qed

lemma serve_all_append: "serve_all (xs @ ys) s = serve_all ys (serve_all xs s)"
  by (induction xs arbitrary: s) simp_all

lemma fresh_keys_append:
  "fresh_keys (xs @ ys) s = (fresh_keys xs s \<and> fresh_keys ys (serve_all xs s))"
  by (induction xs arbitrary: s) simp_all

lemma serve_all_step:
  "i < length rs \<Longrightarrow> serve_all (take (Suc i) rs) s = serve (rs ! i) (serve_all (take i rs) s)"
  by (simp add: take_Suc_conv_app_nth serve_all_append)

lemma fresh_keys_step:
  assumes "fresh_keys rs s" and "i < length rs"
  shows "fresh_key (rs ! i) (serve_all (take i rs) s)"
proof -
  have "rs = take i rs @ rs ! i # drop (Suc i) rs"
    using assms(2) by (simp add: id_take_nth_drop)
  then have "fresh_keys (take i rs @ rs ! i # drop (Suc i) rs) s"
    using assms(1) by simp
  then show ?thesis
    by (simp add: fresh_keys_append)
qed

lemma used_stays:
  assumes "fresh_keys rs s" and "i \<le> j" and "j \<le> length rs"
    and "used_flag (serve_all (take i rs) s) k = Some True"
  shows "used_flag (serve_all (take j rs) s) k = Some True"
  using assms(2,3)
proof (induction j rule: dec_induct)
  case base
  show ?case by (rule assms(4))
next
  case (step n)
  then have n: "n < length rs" by simp
  have "used_flag (serve_all (take n rs) s) k = Some True"
    using step by simp
  then show ?case
    using serve_keeps_used [OF fresh_keys_step [OF assms(1) n]] n by (simp add: serve_all_step)
qed

text \<open>
  Claim C6. Along any sequence of requests to the session-token server (payments,
  validations, listings, lookups) in which every payment draws a key not yet in the
  store, and for every key: once the used flag under the key is true it is true
  after every later request; a request that turns the flag from false to true is a
  validation of that key, answered as valid, on a one-time session; and at most one
  request of the sequence turns it from false to true.
\<close>

theorem C6_used_flag_one_way:
  assumes "fresh_keys rs s"
  shows "(\<forall>i j. i \<le> j \<and> j \<le> length rs \<and> used_flag (serve_all (take i rs) s) k = Some True
            \<longrightarrow> used_flag (serve_all (take j rs) s) k = Some True) \<and>
         (\<forall>i. i < length rs \<and> sets_used rs s k i \<longrightarrow>
            (\<exists>now g. rs ! i = Validate k now \<and> Get (serve_all (take i rs) s) k = Some g \<and>
               Type g = ''onetime'' \<and> fst (Redeem k now (serve_all (take i rs) s)) = VALID)) \<and>
         (\<forall>i j. i < length rs \<and> j < length rs \<and> sets_used rs s k i \<and> sets_used rs s k j
            \<longrightarrow> i = j)"
proof (intro conjI allI impI)
  fix i j
  assume "i \<le> j \<and> j \<le> length rs \<and> used_flag (serve_all (take i rs) s) k = Some True"
  then show "used_flag (serve_all (take j rs) s) k = Some True"
    using used_stays [OF assms] by blast
next
  fix i
  assume h: "i < length rs \<and> sets_used rs s k i"
  then have l: "i < length rs" and before: "used_flag (serve_all (take i rs) s) k = Some False"
    and "used_flag (serve_all (take (Suc i) rs) s) k = Some True"
    by (simp_all add: sets_used_def)
  then have after: "used_flag (serve (rs ! i) (serve_all (take i rs) s)) k = Some True"
    by (simp add: serve_all_step)
  show "\<exists>now g. rs ! i = Validate k now \<and> Get (serve_all (take i rs) s) k = Some g \<and>
               Type g = ''onetime'' \<and> fst (Redeem k now (serve_all (take i rs) s)) = VALID"
    by (rule serve_sets_used [OF before after])
next
  fix i j
  assume h: "i < length rs \<and> j < length rs \<and> sets_used rs s k i \<and> sets_used rs s k j"
  have once: False if "a < b" and "b < length rs" and "sets_used rs s k a" and "sets_used rs s k b"
    for a b
  proof -
    have "used_flag (serve_all (take (Suc a) rs) s) k = Some True"
      using that(3) by (simp add: sets_used_def)
    then have "used_flag (serve_all (take b rs) s) k = Some True"
      using used_stays [OF assms, of "Suc a" b k] that(1,2) by simp
    then show False
      using that(4) by (simp add: sets_used_def)
  qed
  show "i = j"
    using once [of i j] once [of j i] h by (cases i j rule: linorder_cases) auto
qed

theorem C6_witness:
  "fresh_keys [PayOnetime ''A'' 0, Validate ''A'' 1, Validate ''A'' 2, Lookup ''A'', ListSessions 3]
     NewSessionStore \<and>
   sets_used [PayOnetime ''A'' 0, Validate ''A'' 1, Validate ''A'' 2, Lookup ''A'', ListSessions 3]
     NewSessionStore ''A'' 1 \<and>
   used_flag (serve_all [PayOnetime ''A'' 0, Validate ''A'' 1, Validate ''A'' 2, Lookup ''A'',
     ListSessions 3] NewSessionStore) ''A'' = Some True"
proof -
  let ?rs = "[PayOnetime ''A'' 0, Validate ''A'' 1, Validate ''A'' 2, Lookup ''A'', ListSessions 3]"
  have f: "fresh_keys ?rs NewSessionStore"
    by (simp add: NewSessionStore_def Get_def)
  have u: "sets_used ?rs NewSessionStore ''A'' 1"
    by (simp add: sets_used_def used_flag_def Get_pay_onetime session_handler_def isExpired_def
        isUsed_def After_def five_minutes markUsed_def Let_def Get_Set split: prod.splits)
  have "used_flag (serve_all (take 2 ?rs) NewSessionStore) ''A'' = Some True"
    using u by (simp add: sets_used_def numeral_2_eq_2)
  then have "used_flag (serve_all (take 5 ?rs) NewSessionStore) ''A'' = Some True"
    using C6_used_flag_one_way [OF f, of "''A''"] 
    by (elim conjE allE [of _ 2] allE [of _ 5]) simp
  then show ?thesis
    using f u by simp
qed

section \<open>Payments and accesses by wallet address\<close>

lemma lowerByte_idem: "lowerByte (lowerByte c) = lowerByte c"
proof (cases "(65::nat) \<le> of_char c \<and> (of_char c :: nat) \<le> 90")
  case True
  then have "(of_char (char_of (of_char c + (32::nat)) :: char) :: nat) = of_char c + 32"
    by simp
  then show ?thesis
    using True by (simp add: lowerByte_def)
next
  case False
  then have "lowerByte c = c"
    unfolding lowerByte_def by auto
  then show ?thesis by simp
qed

lemma ToLower_idem: "ToLower (ToLower w) = ToLower w"
  by (simp add: ToLower_def lowerByte_idem)

lemma ToLower_empty: "(ToLower w = []) = (w = [])"
  by (simp add: ToLower_def)

lemma reachable_lower_keys: "reachable paid \<Longrightarrow> paid k = Some ua \<Longrightarrow> ToLower k = k"
proof (induction arbitrary: k ua rule: reachable.induct)
  case start
  then show ?case by simp
next
  case (pay paid w now)
  then show ?case
    by (auto simp: pay_image_def Let_def ToLower_idem split: if_splits)
next
  case (access paid now w)
  then show ?case
    by (auto simp: get_image_def paymentMiddleware_def image_handler_def Let_def
        split: if_splits option.splits)
qed

lemma Sub_before: "(Sub now' now < ViewDuration) = (now' < Add now ViewDuration)"
  using Sub_reaches [of now' now] by auto

text \<open>
  Claim C8. In the wallet-address server, an access with a header \<open>w\<close> whose record
  has an elapsed time that has reached the view duration is answered as expired and
  removes the record under \<open>w\<close>; the record of every other key is as before; and the
  next access with the same header, at whatever time, finds no record.
\<close>

theorem C8_expired_access_evicts:
  assumes "w \<noteq> []" and "paid w = Some ua" and "ViewDuration \<le> Sub now (StartTime ua)"
  shows "get_image now w paid = (Expired403, paid(w := None)) \<and>
         (\<forall>k. k \<noteq> w \<longrightarrow> snd (get_image now w paid) k = paid k) \<and>
         get_image now' w (snd (get_image now w paid)) = (NotPaid403, snd (get_image now w paid))"
proof -
  have first: "get_image now w paid = (Expired403, paid(w := None))"
    using assms by (simp add: get_image_def paymentMiddleware_def image_handler_def Let_def)
  have "get_image now' w (paid(w := None)) = (NotPaid403, paid(w := None))"
    using assms(1) by (simp add: get_image_def paymentMiddleware_def image_handler_def)
  then show ?thesis
    using first by simp
qed

theorem C8_witness:
  "get_image 30000000000 ''0xab'' [''0xab'' \<mapsto> \<lparr>StartTime = 0\<rparr>, ''0xcd'' \<mapsto> \<lparr>StartTime = 7\<rparr>] =
     (Expired403, [''0xcd'' \<mapsto> \<lparr>StartTime = 7\<rparr>]) \<and>
   get_image 30000000001 ''0xab'' [''0xcd'' \<mapsto> \<lparr>StartTime = 7\<rparr>] =
     (NotPaid403, [''0xcd'' \<mapsto> \<lparr>StartTime = 7\<rparr>])"
proof -
  let ?p = "[''0xab'' \<mapsto> \<lparr>StartTime = 0\<rparr>, ''0xcd'' \<mapsto> \<lparr>StartTime = 7\<rparr>]"
  have a: "''0xab'' \<noteq> []" by simp
  have b: "?p ''0xab'' = Some \<lparr>StartTime = 0\<rparr>" by simp
  have c: "ViewDuration \<le> Sub 30000000000 (StartTime \<lparr>StartTime = 0\<rparr>)"
    unfolding Sub_reaches by (simp add: Add_def ViewDuration_def Second_def)
  have d: "?p(''0xab'' := None) = [''0xcd'' \<mapsto> \<lparr>StartTime = 7\<rparr>]"
    by (rule ext) simp
  have t: "get_image 30000000000 ''0xab'' ?p = (Expired403, ?p(''0xab'' := None)) \<and>
         (\<forall>k. k \<noteq> ''0xab'' \<longrightarrow> snd (get_image 30000000000 ''0xab'' ?p) k = ?p k) \<and>
         get_image 30000000001 ''0xab'' (snd (get_image 30000000000 ''0xab'' ?p)) =
           (NotPaid403, snd (get_image 30000000000 ''0xab'' ?p))"
    using a b c by (rule C8_expired_access_evicts)
  then have t1: "get_image 30000000000 ''0xab'' ?p = (Expired403, ?p(''0xab'' := None))"
    and t2: "get_image 30000000001 ''0xab'' (snd (get_image 30000000000 ''0xab'' ?p)) =
           (NotPaid403, snd (get_image 30000000000 ''0xab'' ?p))"
    by blast+
  show ?thesis
    using t2 unfolding t1 d by simp
qed

text \<open>
  Claim C9. In the wallet-address server, a payment with a header whose lowercased
  form is already a key of the store replaces the record under that key by one with
  start time \<open>now\<close>; from then on an access under that key is answered with the image
  at every time before \<open>now\<close> plus the full view duration, and as expired from there
  on, whatever the start time of the record replaced.
\<close>

theorem C9_repeated_payment_resets:
  assumes "isASCII w" and "w \<noteq> []" and "paid (ToLower w) = Some old"
  shows "pay_image now w paid = (PayImageOK, paid(ToLower w \<mapsto> \<lparr>StartTime = now\<rparr>)) \<and>
         fst (get_image now' (ToLower w) (snd (pay_image now w paid))) =
           (if now' < Add now ViewDuration then ImageOK now else Expired403)"
proof -
  have p: "pay_image now w paid = (PayImageOK, paid(ToLower w \<mapsto> \<lparr>StartTime = now\<rparr>))"
    using assms(2) by (simp add: pay_image_def Let_def)
  have "ToLower w \<noteq> []"
    using assms(2) by (simp add: ToLower_empty)
  then have "fst (get_image now' (ToLower w) (paid(ToLower w \<mapsto> \<lparr>StartTime = now\<rparr>))) =
           (if now' < Add now ViewDuration then ImageOK now else Expired403)"
    using Sub_reaches [of now' now]
    by (auto simp: get_image_def paymentMiddleware_def image_handler_def Let_def)
  then show ?thesis
    using p by simp
qed

theorem C9_witness:
  "pay_image 100000000000 ''0xAB'' [''0xab'' \<mapsto> \<lparr>StartTime = 0\<rparr>] =
     (PayImageOK, [''0xab'' \<mapsto> \<lparr>StartTime = 100000000000\<rparr>]) \<and>
   fst (get_image 129999999999 ''0xab''
          (snd (pay_image 100000000000 ''0xAB'' [''0xab'' \<mapsto> \<lparr>StartTime = 0\<rparr>]))) =
     ImageOK 100000000000"
proof -
  have l: "ToLower ''0xAB'' = ''0xab''"
    by code_simp
  have a: "isASCII ''0xAB''"
    by code_simp
  have b: "''0xAB'' \<noteq> []"
    by simp
  have c: "[''0xab'' \<mapsto> \<lparr>StartTime = 0\<rparr>] (ToLower ''0xAB'') = Some \<lparr>StartTime = 0\<rparr>"
    by (simp add: l)
  have d: "(129999999999::int) < Add 100000000000 ViewDuration"
    by (simp add: Add_def ViewDuration_def Second_def)
  have "pay_image 100000000000 ''0xAB'' [''0xab'' \<mapsto> \<lparr>StartTime = 0\<rparr>] =
          (PayImageOK, [''0xab'' \<mapsto> \<lparr>StartTime = 0\<rparr>]
                         (ToLower ''0xAB'' \<mapsto> \<lparr>StartTime = 100000000000\<rparr>)) \<and>
        fst (get_image 129999999999 (ToLower ''0xAB'')
               (snd (pay_image 100000000000 ''0xAB'' [''0xab'' \<mapsto> \<lparr>StartTime = 0\<rparr>]))) =
          (if 129999999999 < Add 100000000000 ViewDuration then ImageOK 100000000000
           else Expired403)"
    using a b c by (rule C9_repeated_payment_resets)
  then have t1: "pay_image 100000000000 ''0xAB'' [''0xab'' \<mapsto> \<lparr>StartTime = 0\<rparr>] =
          (PayImageOK, [''0xab'' \<mapsto> \<lparr>StartTime = 0\<rparr>]
                         (ToLower ''0xAB'' \<mapsto> \<lparr>StartTime = 100000000000\<rparr>))"
    and t2: "fst (get_image 129999999999 (ToLower ''0xAB'')
               (snd (pay_image 100000000000 ''0xAB'' [''0xab'' \<mapsto> \<lparr>StartTime = 0\<rparr>]))) =
          (if 129999999999 < Add 100000000000 ViewDuration then ImageOK 100000000000
           else Expired403)"
    by blast+
  show ?thesis
    using t2 d unfolding t1 l by simp
qed

text \<open>
  Claim C10. In the wallet-address server the payment stores the record under the
  lowercased header and the access handler looks the header up as it is. In every
  store the two routes can produce from the empty one, for a header \<open>w\<close> that is
  present: a payment with \<open>w\<close> followed by an access with the same \<open>w\<close> within the view
  duration is answered with the image when \<open>w\<close> is its own lowercasing, and as not
  paid when it is not.
\<close>

theorem C10_raw_header_lookup:
  assumes "reachable paid" and "isASCII w" and "w \<noteq> []" and "Sub now' now < ViewDuration"
  shows "fst (get_image now' w (snd (pay_image now w paid))) =
           (if ToLower w = w then ImageOK now else NotPaid403)"
proof (cases "ToLower w = w")
  case True
  then have "snd (pay_image now w paid) w = Some \<lparr>StartTime = now\<rparr>"
    using assms(3) by (simp add: pay_image_def Let_def)
  then show ?thesis
    using True assms(3,4)
    by (simp add: get_image_def paymentMiddleware_def image_handler_def Let_def)
next
  case False
  have "paid w = None"
  proof (rule ccontr)
    assume "paid w \<noteq> None"
    then obtain ua where "paid w = Some ua" by auto
    then show False
      using reachable_lower_keys [OF assms(1)] False by simp
  qed
  then have "snd (pay_image now w paid) w = None"
    using False assms(3) by (simp add: pay_image_def Let_def)
  then show ?thesis
    using False assms(3) by (simp add: get_image_def paymentMiddleware_def image_handler_def)
qed

theorem C10_witness:
  "fst (get_image 0 ''0xAB'' (snd (pay_image 0 ''0xAB'' Map.empty))) = NotPaid403 \<and>
   ToLower ''0xAB'' \<noteq> ''0xAB'' \<and>
   fst (get_image 0 ''0xab'' (snd (pay_image 0 ''0xab'' Map.empty))) = ImageOK 0"
proof -
  have l: "ToLower ''0xAB'' = ''0xab''" and l': "ToLower ''0xab'' = ''0xab''"
    by code_simp+
  have a: "isASCII ''0xAB''" and a': "isASCII ''0xab''"
    by code_simp+
  have b: "''0xAB'' \<noteq> []" and b': "''0xab'' \<noteq> []"
    by simp_all
  have c: "Sub 0 0 < ViewDuration"
    unfolding Sub_before by (simp add: Add_def ViewDuration_def Second_def)
  show ?thesis
    using C10_raw_header_lookup [OF reachable.start a b c]
      C10_raw_header_lookup [OF reachable.start a' b' c]
    by (simp add: l l')
qed

end
